theory Spec2Isabelle
  imports Complex_Main "HOL-Library.Sublist" "HOL-Library.Word" "HOL-Library.AList"
begin

section \<open>Data model of app.py\<close>

text \<open>
  Python's unbounded integers are \<open>int\<close>, its strings are \<open>string\<close>. An observation is
  the pair \<open>(block, value)\<close> the scanner appends to a series; the value is the hex text of
  the storage word, or the text \<open>ERROR:...\<close> when the read raised. A slot is the pair
  \<open>(label, slot_index)\<close> of line 13.
\<close>

type_synonym obs = "int \<times> string"

type_synonym slot = "string \<times> int"

text \<open>The exceptions the modelled lines can raise, each with its message or name.\<close>

datatype error = NameError string | ValueError string | KeyError string

text \<open>
  A Python dict keeps its keys distinct and in insertion order: an association list.
  \<open>d[k] = v\<close> is \<^const>\<open>AList.update\<close> (replace in place, or append a new key at the
  end), \<open>d[k]\<close> is \<^const>\<open>map_of\<close> and raises KeyError on a missing key.
  \<open>d[k].append(x)\<close> reads the list stored under \<open>k\<close> and extends that list in place.
\<close>

type_synonym dict = "(string \<times> obs list) list"

definition dict_append :: "string \<Rightarrow> obs \<Rightarrow> dict \<Rightarrow> error + dict" where
  "dict_append k x d =
     (case map_of d k of
        None \<Rightarrow> Inl (KeyError k)
      | Some _ \<Rightarrow> Inr (map (\<lambda>(k', v). if k' = k then (k', v @ [x]) else (k', v)) d))"

section \<open>The RPC client\<close>

text \<open>
  The \<open>w3\<close> object is an external collaborator. \<open>w3.eth.get_storage_at\<close> either
  returns the raw bytes stored at (address, slot, block) or raises an \<open>Exception\<close>
  whose \<open>str()\<close> is the given message. The \<open>hex()\<close> of the returned HexBytes is two
  lower-case hexadecimal digits per byte, behind \<open>0x\<close> in the releases of the hexbytes
  package before 1.0 and with no prefix from 1.0 on; \<open>hex_prefix\<close> tells which one is
  installed. \<open>is_connected\<close> is the answer of \<open>w3.is_connected()\<close>.
\<close>

datatype read_result = Returned "8 word list" | Raised string

record w3 =
  storage_at :: "string \<Rightarrow> int \<Rightarrow> int \<Rightarrow> read_result"
  hex_prefix :: bool
  is_connected :: bool

definition hex_digit :: "nat \<Rightarrow> char" where
  "hex_digit n = ''0123456789abcdef'' ! (n mod 16)"

definition byte_hex :: "8 word \<Rightarrow> string" where
  "byte_hex w = [hex_digit (unat w div 16), hex_digit (unat w mod 16)]"

definition hexbytes_hex :: "bool \<Rightarrow> 8 word list \<Rightarrow> string" where
  "hexbytes_hex pfx bs = (if pfx then ''0x'' else []) @ concat (map byte_hex bs)"

text \<open>
  \<open>get_storage_at\<close> (lines 66-68): the exception of the client passes through
  (\<open>Inl\<close> its message), a returned value is rendered by \<open>hex()\<close>.
\<close>

definition get_storage_at :: "w3 \<Rightarrow> string \<Rightarrow> int \<Rightarrow> int \<Rightarrow> string + string" where
  "get_storage_at w address slot block_id =
     (case storage_at w address slot block_id of
        Raised msg \<Rightarrow> Inl msg
      | Returned val \<Rightarrow> Inr (hexbytes_hex (hex_prefix w) val))"

section \<open>Sampled blocks: range (app.py, line 83)\<close>

text \<open>
  The items of Python's \<open>range(i, stop, step)\<close>: upwards while below \<open>stop\<close> for a
  positive step, downwards while above \<open>stop\<close> for a negative one. \<open>range\<close> raises
  ValueError on a zero step.
\<close>

function range_items :: "int \<Rightarrow> int \<Rightarrow> int \<Rightarrow> int list" where
  "range_items i stop step =
     (if (0 < step \<and> i < stop) \<or> (step < 0 \<and> stop < i)
      then i # range_items (i + step) stop step
      else [])"
  by pat_completeness auto
termination
  by (relation "measure (\<lambda>(i, stop, step). nat (if 0 < step then stop - i else i - stop))")
     auto

declare range_items.simps [simp del]

definition py_range :: "int \<Rightarrow> int \<Rightarrow> int \<Rightarrow> error + int list" where
  "py_range start stop step =
     (if step = 0 then Inl (ValueError ''range() arg 3 must not be zero'')
      else Inr (range_items start stop step))"

definition blocks :: "int \<Rightarrow> int \<Rightarrow> int \<Rightarrow> error + int list" where
  "blocks start_block end_block step = py_range start_block (end_block + 1) step"

section \<open>scan_timeline (app.py, lines 71-99)\<close>

text \<open>
  The module's global names that the scan reads. The progress lines compute
  \<open>time.time() - start_time\<close>, and \<open>start_time\<close> is neither a local of
  \<open>scan_timeline\<close> nor assigned anywhere in app.py: the lookup goes to the module's
  globals. \<open>Some t\<close> is a global bound to the number \<open>t\<close>, \<open>None\<close> an unbound
  name. \<open>module_globals\<close> is what app.py itself binds.
\<close>

record globals =
  start_time :: "real option"

definition module_globals :: globals where
  "module_globals = \<lparr>start_time = None\<rparr>"

text \<open>
  Lines 86-92, the progress report for block \<open>b\<close>, the \<open>i\<close>-th of \<open>tot\<close> (the local \<open>total\<close>).
  As stored, lines 88-92 are indented less than the loop body around them, and Python
  rejects the file at line 93; the model reads them at the depth of line 86, inside the
  \<open>for\<close> over the blocks, where \<open>i\<close> and \<open>b\<close> are bound and the loop over the
  slots (lines 93-98) follows. The percentage and the ETA are floating-point numbers that
  only go into the printed line; what the model keeps is whether the lines raise. Inside
  the loop \<open>total\<close> and \<open>i\<close> are at least 1, so neither division raises.
\<close>

definition progress :: "globals \<Rightarrow> nat \<Rightarrow> nat \<Rightarrow> int \<Rightarrow> error + unit" where
  "progress g i tot b =
     (case start_time g of
        None \<Rightarrow> Inl (NameError ''start_time'')
      | Some t0 \<Rightarrow> Inr ())"

text \<open>
  Lines 94-97: the value recorded for one (slot, block) pair. \<open>except Exception\<close>
  turns a raised read into the text \<open>ERROR:\<close> followed by the message.
\<close>

definition read_value :: "w3 \<Rightarrow> string \<Rightarrow> int \<Rightarrow> int \<Rightarrow> string" where
  "read_value w address idx b =
     (case get_storage_at w address idx b of
        Inr val \<Rightarrow> val
      | Inl e \<Rightarrow> ''ERROR:'' @ e)"

text \<open>
  The state of the scan is the dict \<open>out\<close> and the list of reads issued so far, each
  read a pair (slot index, block). Every function returns the reads issued together
  with its result, so that a raised error keeps the reads made before it.
\<close>

type_synonym call = "int \<times> int"

text \<open>Line 82: \<open>{lbl: [] for lbl, _ in slots}\<close>.\<close>

definition init_out :: "slot list \<Rightarrow> dict" where
  "init_out slots = foldl (\<lambda>d (lbl, _). AList.update lbl [] d) [] slots"

text \<open>Lines 93-98: the loop over the slots for one block.\<close>

fun scan_slots ::
  "w3 \<Rightarrow> string \<Rightarrow> int \<Rightarrow> slot list \<Rightarrow> dict \<Rightarrow> call list \<Rightarrow> (error + dict) \<times> call list"
where
  "scan_slots w address b [] out cs = (Inr out, cs)"
| "scan_slots w address b ((lbl, idx) # slots) out cs =
     (let val = read_value w address idx b
      in case dict_append lbl (b, val) out of
           Inl e \<Rightarrow> (Inl e, cs @ [(idx, b)])
         | Inr out' \<Rightarrow> scan_slots w address b slots out' (cs @ [(idx, b)]))"

text \<open>Lines 85-98: the loop over the blocks, \<open>i\<close> counting from 1.\<close>

fun scan_blocks ::
  "globals \<Rightarrow> w3 \<Rightarrow> string \<Rightarrow> slot list \<Rightarrow> nat \<Rightarrow> nat \<Rightarrow> int list \<Rightarrow> dict \<Rightarrow> call list
     \<Rightarrow> (error + dict) \<times> call list"
where
  "scan_blocks g w address slots tot i [] out cs = (Inr out, cs)"
| "scan_blocks g w address slots tot i (b # bs) out cs =
     (case progress g i tot b of
        Inl e \<Rightarrow> (Inl e, cs)
      | Inr _ \<Rightarrow>
          (case scan_slots w address b slots out cs of
             (Inl e, cs') \<Rightarrow> (Inl e, cs')
           | (Inr out', cs') \<Rightarrow> scan_blocks g w address slots tot (Suc i) bs out' cs'))"

definition scan_timeline ::
  "globals \<Rightarrow> w3 \<Rightarrow> string \<Rightarrow> slot list \<Rightarrow> int \<Rightarrow> int \<Rightarrow> int
     \<Rightarrow> (error + dict) \<times> call list"
where
  "scan_timeline g w address slots start_block end_block step =
     (let out = init_out slots
      in case blocks start_block end_block step of
           Inl e \<Rightarrow> (Inl e, [])
         | Inr bs \<Rightarrow> scan_blocks g w address slots (length bs) 1 bs out [])"

section \<open>summarize_changes (app.py, lines 102-112)\<close>

text \<open>
  The loop of \<open>summarize_changes\<close>, with its two local variables as arguments:
  \<open>changes\<close> is the list built so far, \<open>prev\<close> is \<open>None\<close> before the first
  observation and the last retained value afterwards. A Python string never equals
  \<open>None\<close>, which is \<open>Some val \<noteq> None\<close> here.
\<close>

fun summarize_loop :: "obs list \<Rightarrow> string option \<Rightarrow> obs list \<Rightarrow> obs list" where
  "summarize_loop changes prev [] = changes"
| "summarize_loop changes prev ((block, val) # series) =
     (if Some val \<noteq> prev
      then summarize_loop (changes @ [(block, val)]) (Some val) series
      else summarize_loop changes prev series)"

definition summarize_changes :: "obs list \<Rightarrow> obs list" where
  "summarize_changes series = summarize_loop [] None series"

section \<open>main (app.py, lines 131-204)\<close>

text \<open>
  The parsed command line: the fields of \<open>args\<close> that \<open>main\<close> reads before and
  during the scan.
\<close>

record args =
  from_block :: int
  to_block :: int
  step :: int
  rpc :: string
  address :: string

text \<open>
  What \<open>main\<close> gets from outside app.py's own logic: the two functions of the web3
  package behind \<open>to_checksum\<close>, the outcome of \<open>parse_slots(args)\<close> (the slot
  list, or the message of the exception it raised), the client that
  \<open>Web3(Web3.HTTPProvider(...))\<close> builds, and the module's globals.
\<close>

record env =
  is_address :: "string \<Rightarrow> bool"
  to_checksum_address :: "string \<Rightarrow> string"
  parse_slots :: "string + slot list"
  client :: w3
  module :: globals

text \<open>\<open>to_checksum\<close> (lines 16-19).\<close>

definition to_checksum :: "env \<Rightarrow> string \<Rightarrow> error + string" where
  "to_checksum e addr =
     (if \<not> is_address e addr then Inl (ValueError (''Invalid Ethereum address: '' @ addr))
      else Inr (to_checksum_address e addr))"

text \<open>
  Lines 172-185: the loop over the labels of the timeline, in the dict's order. A dict
  has one entry per key, so \<open>timeline[lbl]\<close> is the series of the entry at hand.
  \<open>changes[0]\<close> is only read when \<open>len(changes) == 1\<close>; the printed lines are not
  part of the model.
\<close>

fun report_loop :: "dict \<Rightarrow> dict \<Rightarrow> int \<Rightarrow> dict \<times> int" where
  "report_loop [] change_report total_changes = (change_report, total_changes)"
| "report_loop ((lbl, series) # timeline) change_report total_changes =
     (let changes = summarize_changes series
      in report_loop timeline (AList.update lbl changes change_report)
           (total_changes + max 0 (int (length changes) - 1)))"

record report =
  change_report :: dict
  total_changes :: int
  ok :: bool

definition assemble :: "dict \<Rightarrow> report" where
  "assemble timeline =
     (case report_loop timeline [] 0 of
        (cr, n) \<Rightarrow> \<lparr>change_report = cr, total_changes = n, ok = (n = 0)\<rparr>)"

text \<open>
  How the process ends: \<open>sys.exit(n)\<close>, or an exception nobody catches, which
  Python reports with a traceback and status 1.
\<close>

datatype exit = Exit int | Uncaught error

fun exit_status :: "exit \<Rightarrow> int" where
  "exit_status (Exit n) = n"
| "exit_status (Uncaught e) = 1"

text \<open>
  \<open>main\<close>, returning how the process ends and the storage reads it issued. The
  checks come in the source's order: the range (134), the step (137), the address and
  the slots (141-146), the RPC URL (148), the connection (153), then the scan and the
  report, and \<open>sys.exit(0 if ok else 2)\<close>.
\<close>

definition main :: "args \<Rightarrow> env \<Rightarrow> exit \<times> call list" where
  "main a e =
     (if from_block a > to_block a then (Exit 1, [])
      else if step a \<le> 0 then (Exit 1, [])
      else case to_checksum e (address a) of
        Inl err \<Rightarrow> (Exit 1, [])
      | Inr addr \<Rightarrow>
          (case parse_slots e of
             Inl msg \<Rightarrow> (Exit 1, [])
           | Inr slots \<Rightarrow>
               if \<not> (prefix ''http://'' (rpc a) \<or> prefix ''https://'' (rpc a))
               then (Exit 1, [])
               else if \<not> is_connected (client e) then (Exit 1, [])
               else (case scan_timeline (module e) (client e) addr slots
                            (from_block a) (to_block a) (step a) of
                       (Inl err, cs) \<Rightarrow> (Uncaught err, cs)
                     | (Inr timeline, cs) \<Rightarrow>
                         (Exit (if ok (assemble timeline) then 0 else 2), cs))))"

section \<open>Notions used to state the properties\<close>

text \<open>
  The (block, slot index) pairs whose reads go into the series of label \<open>lbl\<close>, in the
  order the two nested loops visit them: block by block, and within a block every slot
  of that label in the order of the slot list.
\<close>

definition samples :: "slot list \<Rightarrow> int list \<Rightarrow> string \<Rightarrow> (int \<times> int) list" where
  "samples slots bs lbl =
     concat (map (\<lambda>b. map (\<lambda>(l, idx). (b, idx)) (filter (\<lambda>(l, idx). l = lbl) slots)) bs)"

text \<open>All reads of a scan over the blocks \<open>bs\<close>, in order.\<close>

definition all_calls :: "slot list \<Rightarrow> int list \<Rightarrow> call list" where
  "all_calls slots bs = concat (map (\<lambda>b. map (\<lambda>(l, idx). (idx, b)) slots) bs)"

text \<open>
  The first retained value differs from \<open>prev\<close>: the invariant that makes adjacent
  retained outcomes differ.
\<close>

definition starts_off :: "string option \<Rightarrow> obs list \<Rightarrow> bool" where
  "starts_off prev cs = (case cs of [] \<Rightarrow> True | (b, v) # _ \<Rightarrow> Some v \<noteq> prev)"

section \<open>Properties of summarize_changes\<close>

lemma summarize_loop_acc:
  "summarize_loop changes prev series = changes @ summarize_loop [] prev series"
proof (induction series arbitrary: changes prev)
  case Nil
  show ?case by simp
next
  case (Cons x series)
  obtain block val where x: "x = (block, val)" by (cases x)
  show ?case
  proof (cases "Some val \<noteq> prev")
    case True
    have "summarize_loop (changes @ [(block, val)]) (Some val) series
          = (changes @ [(block, val)]) @ summarize_loop [] (Some val) series"
      by (rule Cons.IH)
    moreover have "summarize_loop [(block, val)] (Some val) series
          = [(block, val)] @ summarize_loop [] (Some val) series"
      by (rule Cons.IH)
    ultimately show ?thesis using True x by simp
  next
    case False
    then show ?thesis using x Cons.IH [of changes prev] by simp
  qed
qed

lemma summarize_loop_Cons:
  "summarize_loop [] prev ((block, val) # series) =
     (if Some val \<noteq> prev then (block, val) # summarize_loop [] (Some val) series
      else summarize_loop [] prev series)"
  using summarize_loop_acc [of "[(block, val)]" "Some val" series] by simp

lemma summarize_loop_subseq: "subseq (summarize_loop [] prev series) series"
proof (induction series arbitrary: prev)
  case Nil
  show ?case by simp
next
  case (Cons x series)
  obtain block val where x: "x = (block, val)" by (cases x)
  show ?case
    unfolding x summarize_loop_Cons
    using Cons.IH [of "Some val"] Cons.IH [of prev] by (auto intro: list_emb_Cons)
qed

lemma summarize_loop_starts_off: "starts_off prev (summarize_loop [] prev series)"
proof (induction series arbitrary: prev)
  case Nil
  show ?case by (simp add: starts_off_def)
next
  case (Cons x series)
  obtain block val where x: "x = (block, val)" by (cases x)
  show ?case
    unfolding x summarize_loop_Cons
    using Cons.IH [of prev] by (simp add: starts_off_def)
qed

lemma summarize_loop_distinct_adj:
  "distinct_adj (map snd (summarize_loop [] prev series))"
proof (induction series arbitrary: prev)
  case Nil
  show ?case by simp
next
  case (Cons x series)
  obtain block val where x: "x = (block, val)" by (cases x)
  have "distinct_adj (val # map snd (summarize_loop [] (Some val) series))"
    using Cons.IH [of "Some val"] summarize_loop_starts_off [of "Some val" series]
    by (cases "summarize_loop [] (Some val) series")
       (auto simp: distinct_adj_Cons starts_off_def)
  then show ?case
    unfolding x summarize_loop_Cons using Cons.IH [of prev] by simp
qed

lemma summarize_loop_fixpoint:
  "distinct_adj (map snd cs) \<Longrightarrow> starts_off prev cs \<Longrightarrow> summarize_loop [] prev cs = cs"
proof (induction cs arbitrary: prev)
  case Nil
  show ?case by simp
next
  case (Cons x cs)
  obtain block val where x: "x = (block, val)" by (cases x)
  from Cons.prems(2) have ne: "Some val \<noteq> prev" by (simp add: x starts_off_def)
  from Cons.prems(1) have d: "distinct_adj (map snd cs)"
    by (auto simp: x distinct_adj_Cons)
  from Cons.prems(1) have s: "starts_off (Some val) cs"
    by (cases cs) (auto simp: x starts_off_def)
  show ?case
    unfolding x summarize_loop_Cons using ne Cons.IH [OF d s] by simp
qed

text \<open>
  Claim C3. For every non-empty series, \<open>summarize_changes\<close> returns a non-empty
  subsequence of the series whose first element is the first observation and in which
  no two adjacent elements carry the same value.
\<close>

theorem summarize_changes_nonempty_series:
  assumes "series \<noteq> []"
  shows "summarize_changes series \<noteq> []
       \<and> hd (summarize_changes series) = hd series
       \<and> subseq (summarize_changes series) series
       \<and> distinct_adj (map snd (summarize_changes series))"
proof -
  obtain block val rest where s: "series = (block, val) # rest"
    using assms by (cases series) auto
  have "summarize_changes series = (block, val) # summarize_loop [] (Some val) rest"
    unfolding summarize_changes_def s summarize_loop_Cons by simp
  then have "summarize_changes series \<noteq> []" "hd (summarize_changes series) = hd series"
    by (simp_all add: s)
  moreover have "subseq (summarize_changes series) series"
    unfolding summarize_changes_def by (rule summarize_loop_subseq)
  moreover have "distinct_adj (map snd (summarize_changes series))"
    unfolding summarize_changes_def by (rule summarize_loop_distinct_adj)
  ultimately show ?thesis by simp
qed

theorem summarize_changes_nonempty_series_witness:
  "[(1000, ''0x01''), (1500, ''0x01''), (2000, ''0x02'')] \<noteq> ([] :: obs list)
   \<and> summarize_changes [(1000, ''0x01''), (1500, ''0x01''), (2000, ''0x02'')]
       = [(1000, ''0x01''), (2000, ''0x02'')]
   \<and> subseq (summarize_changes [(1000, ''0x01''), (1500, ''0x01''), (2000, ''0x02'')])
       [(1000, ''0x01''), (1500, ''0x01''), (2000, ''0x02'')]"
proof -
  have ne: "[(1000, ''0x01''), (1500, ''0x01''), (2000, ''0x02'')] \<noteq> ([] :: obs list)"
    by simp
  show ?thesis
    using summarize_changes_nonempty_series [OF ne] by (simp add: summarize_changes_def)
qed

text \<open>
  Claim C4. \<open>summarize_changes\<close> is idempotent: summarizing its output again returns
  that output unchanged, for every series.
\<close>

theorem summarize_changes_idempotent:
  "summarize_changes (summarize_changes series) = summarize_changes series"
  unfolding summarize_changes_def
  by (rule summarize_loop_fixpoint [OF summarize_loop_distinct_adj summarize_loop_starts_off])

text \<open>
  Claim C9. On the empty series \<open>summarize_changes\<close> returns the empty list; the loop
  body never runs.
\<close>

theorem summarize_changes_empty: "summarize_changes [] = []"
  by (simp add: summarize_changes_def)

section \<open>Properties of the sampled blocks\<close>

lemma range_items_up:
  "0 < stride \<Longrightarrow>
   range_items i stop stride
     = map (\<lambda>k. i + int k * stride) [0..<nat ((stop - 1 - i) div stride + 1)]"
proof (induction i stop stride rule: range_items.induct)
  case (1 i stop stride)
  show ?case
  proof (cases "i < stop")
    case False
    then have "(stop - 1 - i) div stride < 0"
      using "1.prems" by (simp add: div_neg_pos_less0)
    then have "nat ((stop - 1 - i) div stride + 1) = 0" by simp
    moreover have "range_items i stop stride = []"
      using False "1.prems" by (simp add: range_items.simps [of i stop stride])
    ultimately show ?thesis by simp
  next
    case True
    have shift: "(stop - 1 - (i + stride)) div stride + 1 = (stop - 1 - i) div stride"
    proof -
      have "stop - 1 - i = (stop - 1 - (i + stride)) + 1 * stride" by simp
      then have "(stop - 1 - i) div stride = (stop - 1 - (i + stride)) div stride + 1"
        using "1.prems" by (metis div_mult_self1 less_irrefl add.commute)
      then show ?thesis by simp
    qed
    have nonneg: "0 \<le> (stop - 1 - i) div stride"
      using True "1.prems" by (simp add: pos_imp_zdiv_nonneg_iff)
    define n where "n = nat ((stop - 1 - i) div stride)"
    have n1: "nat ((stop - 1 - i) div stride + 1) = Suc n"
      using nonneg by (simp add: n_def nat_add_distrib)
    have n2: "nat ((stop - 1 - (i + stride)) div stride + 1) = n"
      by (simp add: shift n_def)
    have "range_items i stop stride = i # range_items (i + stride) stop stride"
      using True "1.prems" by (simp add: range_items.simps [of i stop stride])
    also have "range_items (i + stride) stop stride
                 = map (\<lambda>k. i + stride + int k * stride) [0..<n]"
      using "1.IH" True "1.prems" by (simp add: n2)
    also have "i # map (\<lambda>k. i + stride + int k * stride) [0..<n]
                 = map (\<lambda>k. i + int k * stride) [0..<Suc n]"
      by (simp add: upt_conv_Cons map_Suc_upt [symmetric] algebra_simps del: upt_Suc)
    finally show ?thesis by (simp only: n1)
  qed
qed

lemma blocks_closed_form:
  assumes "start_block \<le> end_block" "0 < stride"
  shows "blocks start_block end_block stride
     = Inr (map (\<lambda>k. start_block + int k * stride)
              [0..<Suc (nat ((end_block - start_block) div stride))])"
proof -
  have "0 \<le> (end_block - start_block) div stride"
    using assms by (simp add: pos_imp_zdiv_nonneg_iff)
  then have "nat ((end_block + 1 - 1 - start_block) div stride + 1)
           = Suc (nat ((end_block - start_block) div stride))"
    by (simp add: nat_add_distrib)
  then show ?thesis
    using assms range_items_up [of stride start_block "end_block + 1"]
    by (simp add: blocks_def py_range_def)
qed

lemma stride_points_sorted:
  "0 < stride \<Longrightarrow> sorted_wrt (<) (map (\<lambda>k. start_block + int k * stride) [0..<m])"
proof -
  assume pos: "0 < stride"
  have "sorted_wrt (\<lambda>j k. start_block + int j * stride < start_block + int k * stride) [0..<m]"
    by (rule sorted_wrt_mono_rel [OF _ sorted_wrt_upt]) (use pos in simp)
  then show ?thesis by (simp add: sorted_wrt_map)
qed

text \<open>
  Claim C2. For \<open>start_block \<le> end_block\<close> and a positive stride, the sampled blocks
  are exactly \<open>start_block + k * stride\<close> for \<open>k = 0, 1, ...\<close> up to the last value not
  above \<open>end_block\<close>: strictly ascending, starting at \<open>start_block\<close>, every element
  congruent to \<open>start_block\<close> modulo the stride and at most \<open>end_block\<close>, and
  \<open>floor((end_block - start_block) / stride) + 1\<close> of them.
\<close>

theorem blocks_sampled:
  assumes "start_block \<le> end_block" and "0 < stride"
  shows "\<exists>bs. blocks start_block end_block stride = Inr bs
     \<and> bs = map (\<lambda>k. start_block + int k * stride)
              [0..<nat ((end_block - start_block) div stride) + 1]
     \<and> sorted_wrt (<) bs
     \<and> hd bs = start_block
     \<and> (\<forall>x \<in> set bs. x mod stride = start_block mod stride \<and> x \<le> end_block)
     \<and> length bs = nat ((end_block - start_block) div stride) + 1
     \<and> end_block < last bs + stride"
proof -
  define n where "n = nat ((end_block - start_block) div stride)"
  define bs where "bs = map (\<lambda>k. start_block + int k * stride) [0..<Suc n]"
  have q: "0 \<le> (end_block - start_block) div stride"
    using assms by (simp add: pos_imp_zdiv_nonneg_iff)
  have n_int: "int n = (end_block - start_block) div stride"
    using q by (simp add: n_def)
  have low: "int n * stride \<le> end_block - start_block"
  proof -
    have "0 \<le> (end_block - start_block) mod stride"
      using assms(2) by simp
    moreover have "end_block - start_block
        = (end_block - start_block) div stride * stride + (end_block - start_block) mod stride"
      by simp
    ultimately show ?thesis unfolding n_int by linarith
  qed
  have high: "end_block - start_block < int n * stride + stride"
  proof -
    have "(end_block - start_block) mod stride < stride"
      using assms(2) by simp
    moreover have "end_block - start_block
        = (end_block - start_block) div stride * stride + (end_block - start_block) mod stride"
      by simp
    ultimately show ?thesis unfolding n_int by linarith
  qed
  have eq: "blocks start_block end_block stride = Inr bs"
    unfolding bs_def n_def by (rule blocks_closed_form [OF assms])
  have srt: "sorted_wrt (<) bs"
    unfolding bs_def by (rule stride_points_sorted [OF assms(2)])
  have hd: "hd bs = start_block"
    by (simp add: bs_def upt_conv_Cons del: upt_Suc)
  have mem: "\<forall>x \<in> set bs. x mod stride = start_block mod stride \<and> x \<le> end_block"
  proof
    fix x assume "x \<in> set bs"
    then have "x \<in> (\<lambda>k. start_block + int k * stride) ` {0..<Suc n}"
      unfolding bs_def set_map set_upt .
    then obtain k where kin: "k \<in> {0..<Suc n}" and x: "x = start_block + int k * stride"
      by blast
    have k: "k \<le> n" using kin by simp
    have "int k * stride \<le> int n * stride"
      using k assms(2) by (simp add: mult_right_mono)
    then have "x \<le> end_block" using low x by linarith
    moreover have "x mod stride = start_block mod stride" by (simp add: x)
    ultimately show "x mod stride = start_block mod stride \<and> x \<le> end_block" by simp
  qed
  have len: "length bs = n + 1" by (simp add: bs_def)
  have lst: "last bs = start_block + int n * stride"
    by (simp add: bs_def)
  have top: "end_block < last bs + stride" using high lst by linarith
  have form: "bs = map (\<lambda>k. start_block + int k * stride)
                     [0..<nat ((end_block - start_block) div stride) + 1]"
    by (simp only: bs_def n_def Suc_eq_plus1)
  have len': "length bs = nat ((end_block - start_block) div stride) + 1"
    using len by (simp only: n_def)
  show ?thesis
    using eq form srt hd mem len' top by blast
qed

theorem blocks_sampled_witness:
  "(1000::int) \<le> 2300 \<and> (0::int) < 500
   \<and> blocks 1000 2300 500 = Inr [1000, 1500, 2000]"
proof -
  have a: "(1000::int) \<le> 2300" and b: "(0::int) < 500" by simp_all
  have n: "nat ((2300 - 1000) div 500) + 1 = Suc (Suc (Suc 0))" by simp
  obtain bs where "blocks 1000 2300 500 = Inr bs"
    and "bs = map (\<lambda>k. 1000 + int k * 500) [0..<nat ((2300 - 1000) div 500) + 1]"
    using blocks_sampled [OF a b] by blast
  then show ?thesis unfolding n by simp
qed

section \<open>Recorded values: hex text against error text\<close>

lemma hex_digit_lower: "hex_digit n \<noteq> CHR ''E''"
proof -
  have "\<forall>k \<in> set [0..<16]. ''0123456789abcdef'' ! k \<noteq> CHR ''E''"
    by code_simp
  moreover have "n mod 16 \<in> set [0..<16]" by simp
  ultimately show ?thesis unfolding hex_digit_def by blast
qed

lemma hexbytes_hex_not_error: "hexbytes_hex pfx val \<noteq> ''ERROR:'' @ msg"
proof (cases pfx)
  case True
  then show ?thesis by (simp add: hexbytes_hex_def)
next
  case False
  show ?thesis
  proof (cases val)
    case Nil
    then show ?thesis using False by (simp add: hexbytes_hex_def)
  next
    case (Cons byte rest)
    then show ?thesis
      using False hex_digit_lower [of "unat byte div 16"]
      by (simp add: hexbytes_hex_def byte_hex_def)
  qed
qed

text \<open>
  Claim C5. The value recorded for a read that returned never equals the value recorded
  for a read that raised, whatever the bytes and whatever the message: the first is
  the hex text of the bytes, the second is \<open>ERROR:\<close> followed by the message.
\<close>

theorem value_never_equals_error:
  assumes "storage_at w addr idx b = Returned val"
    and "storage_at w' addr' idx' b' = Raised msg"
  shows "read_value w addr idx b = hexbytes_hex (hex_prefix w) val
       \<and> read_value w' addr' idx' b' = ''ERROR:'' @ msg
       \<and> read_value w addr idx b \<noteq> read_value w' addr' idx' b'"
  using assms hexbytes_hex_not_error [of "hex_prefix w" val msg]
  by (simp add: read_value_def get_storage_at_def)

theorem value_never_equals_error_witness:
  "storage_at \<lparr>storage_at = (\<lambda>a i b. if b = 1500 then Raised ''timeout'' else Returned [0xEE]),
                hex_prefix = False, is_connected = True\<rparr> ''0xC0'' 0 1000 = Returned [0xEE]
   \<and> storage_at \<lparr>storage_at = (\<lambda>a i b. if b = 1500 then Raised ''timeout'' else Returned [0xEE]),
                hex_prefix = False, is_connected = True\<rparr> ''0xC0'' 0 1500 = Raised ''timeout''
   \<and> read_value \<lparr>storage_at = (\<lambda>a i b. if b = 1500 then Raised ''timeout'' else Returned [0xEE]),
                hex_prefix = False, is_connected = True\<rparr> ''0xC0'' 0 1000 = ''ee''
   \<and> read_value \<lparr>storage_at = (\<lambda>a i b. if b = 1500 then Raised ''timeout'' else Returned [0xEE]),
                hex_prefix = False, is_connected = True\<rparr> ''0xC0'' 0 1500 = ''ERROR:timeout''"
proof -
  let ?w = "\<lparr>storage_at = (\<lambda>a i b. if b = (1500::int) then Raised ''timeout'' else Returned [0xEE]),
                hex_prefix = False, is_connected = True\<rparr>"
  have a: "storage_at ?w ''0xC0'' 0 1000 = Returned [0xEE]" by simp
  have b: "storage_at ?w ''0xC0'' 0 1500 = Raised ''timeout''" by simp
  have h: "hexbytes_hex False [0xEE] = ''ee''"
    by (simp add: hexbytes_hex_def byte_hex_def hex_digit_def)
  show ?thesis
    using value_never_equals_error [OF a b] a b h by simp
qed

section \<open>Properties of scan_timeline\<close>

lemma update_values:
  "\<forall>(k', v') \<in> set d. v' = v \<Longrightarrow> \<forall>(k', v') \<in> set (AList.update k v d). v' = v"
  by (induction d) auto

lemma init_fold_keys:
  "fst ` set (foldl (\<lambda>d (lbl, _). AList.update lbl ([] :: obs list) d) d slots)
     = fst ` set d \<union> fst ` set slots"
proof (induction slots arbitrary: d)
  case Nil
  show ?case by simp
next
  case (Cons s slots)
  obtain lbl idx where s: "s = (lbl, idx)" by (cases s)
  have "fst ` set (foldl (\<lambda>d (lbl, _). AList.update lbl ([] :: obs list) d)
                    (AList.update lbl [] d) slots)
          = fst ` set (AList.update lbl ([] :: obs list) d) \<union> fst ` set slots"
    by (rule Cons.IH)
  also have "\<dots> = fst ` set d \<union> fst ` set (s # slots)"
    unfolding dom_update by (auto simp: s)
  finally show ?case by (simp add: s)
qed

lemma init_fold_distinct:
  "distinct (map fst d) \<Longrightarrow>
   distinct (map fst (foldl (\<lambda>d (lbl, _). AList.update lbl ([] :: obs list) d) d slots))"
  by (induction slots arbitrary: d) (auto simp: distinct_update split: prod.splits)

lemma init_fold_values:
  "\<forall>(k, v) \<in> set d. v = [] \<Longrightarrow>
   \<forall>(k, v) \<in> set (foldl (\<lambda>d (lbl, _). AList.update lbl ([] :: obs list) d) d slots). v = []"
proof (induction slots arbitrary: d)
  case Nil
  then show ?case by simp
next
  case (Cons s slots)
  obtain lbl idx where s: "s = (lbl, idx)" by (cases s)
  have "\<forall>(k, v) \<in> set (AList.update lbl [] d). v = []"
    by (rule update_values [OF Cons.prems])
  then show ?case using Cons.IH [of "AList.update lbl [] d"] by (simp add: s)
qed

lemma init_out_keys: "fst ` set (init_out slots) = fst ` set slots"
  unfolding init_out_def using init_fold_keys [of "[]" slots] by simp

lemma init_out_distinct: "distinct (map fst (init_out slots))"
  unfolding init_out_def by (rule init_fold_distinct) simp

lemma init_out_values: "(k, v) \<in> set (init_out slots) \<Longrightarrow> v = []"
  unfolding init_out_def using init_fold_values [of "[]" slots] by auto

lemma dict_append_present:
  "k \<in> fst ` set d \<Longrightarrow>
   dict_append k x d = Inr (map (\<lambda>(k', v). (k', v @ (if k' = k then [x] else []))) d)"
proof -
  assume "k \<in> fst ` set d"
  then obtain v where "map_of d k = Some v"
    by (metis map_of_eq_None_iff not_Some_eq)
  moreover have "(\<lambda>(k', v). if k' = k then (k', v @ [x]) else (k', v))
       = (\<lambda>(k', v). (k', v @ (if k' = k then [x] else [])))"
    by auto
  ultimately show ?thesis by (simp add: dict_append_def)
qed

lemma extend_keys: "fst ` set (map (\<lambda>(k, v). (k, v @ f k)) d) = fst ` set d"
  by (induction d) auto

text \<open>
  The loops in closed form: one pass over the slots appends to every label's series the
  reads of the slots carrying that label; the scan appends them block after block.
\<close>

lemma scan_slots_closed:
  "fst ` set slots \<subseteq> fst ` set out \<Longrightarrow>
   scan_slots w addr b slots out cs
     = (Inr (map (\<lambda>(k, v). (k, v @ map (\<lambda>(l, idx). (b, read_value w addr idx b))
                                       (filter (\<lambda>(l, idx). l = k) slots))) out),
        cs @ map (\<lambda>(l, idx). (idx, b)) slots)"
proof (induction slots arbitrary: out cs)
  case Nil
  show ?case by simp
next
  case (Cons s slots)
  obtain lbl idx where s: "s = (lbl, idx)" by (cases s)
  let ?x = "(b, read_value w addr idx b)"
  let ?out' = "map (\<lambda>(k', v). (k', v @ (if k' = lbl then [?x] else []))) out"
  have present: "lbl \<in> fst ` set out" using Cons.prems by (simp add: s)
  have app: "dict_append lbl ?x out = Inr ?out'"
    by (rule dict_append_present [OF present])
  have keys: "fst ` set slots \<subseteq> fst ` set ?out'"
    using Cons.prems extend_keys [of "\<lambda>k. if k = lbl then [?x] else []" out] by simp
  have "scan_slots w addr b (s # slots) out cs
         = scan_slots w addr b slots ?out' (cs @ [(idx, b)])"
    by (simp add: s app)
  also have "\<dots> = (Inr (map (\<lambda>(k, v). (k, v @ map (\<lambda>(l, idx). (b, read_value w addr idx b))
                                       (filter (\<lambda>(l, idx). l = k) slots))) ?out'),
        (cs @ [(idx, b)]) @ map (\<lambda>(l, idx). (idx, b)) slots)"
    by (rule Cons.IH [OF keys])
  also have "\<dots> = (Inr (map (\<lambda>(k, v). (k, v @ map (\<lambda>(l, idx). (b, read_value w addr idx b))
                                       (filter (\<lambda>(l, idx). l = k) (s # slots)))) out),
        cs @ map (\<lambda>(l, idx). (idx, b)) (s # slots))"
    by (auto simp: s)
  finally show ?case .
qed

lemma samples_Cons:
  "samples slots (b # bs) k
     = map (\<lambda>(l, idx). (b, idx)) (filter (\<lambda>(l, idx). l = k) slots) @ samples slots bs k"
  by (simp add: samples_def)

lemma all_calls_Cons:
  "all_calls slots (b # bs) = map (\<lambda>(l, idx). (idx, b)) slots @ all_calls slots bs"
  by (simp add: all_calls_def)

lemma scan_blocks_closed:
  assumes "start_time g = Some t0" and "fst ` set slots \<subseteq> fst ` set out"
  shows "scan_blocks g w addr slots tot i bs out cs
     = (Inr (map (\<lambda>(k, v). (k, v @ map (\<lambda>(b, idx). (b, read_value w addr idx b))
                                       (samples slots bs k))) out),
        cs @ all_calls slots bs)"
  using assms(2)
proof (induction bs arbitrary: i out cs)
  case Nil
  show ?case by (simp add: samples_def all_calls_def)
next
  case (Cons b bs)
  let ?out' = "map (\<lambda>(k, v). (k, v @ map (\<lambda>(l, idx). (b, read_value w addr idx b))
                                       (filter (\<lambda>(l, idx). l = k) slots))) out"
  have keys: "fst ` set slots \<subseteq> fst ` set ?out'"
    using Cons.prems
      extend_keys [of "\<lambda>k. map (\<lambda>(l, idx). (b, read_value w addr idx b))
                                       (filter (\<lambda>(l, idx). l = k) slots)" out]
    by simp
  have "scan_blocks g w addr slots tot i (b # bs) out cs
         = scan_blocks g w addr slots tot (Suc i) bs ?out' (cs @ map (\<lambda>(l, idx). (idx, b)) slots)"
    by (simp add: progress_def assms(1) scan_slots_closed [OF Cons.prems])
  also have "\<dots> = (Inr (map (\<lambda>(k, v). (k, v @ map (\<lambda>(b, idx). (b, read_value w addr idx b))
                                       (samples slots bs k))) ?out'),
        (cs @ map (\<lambda>(l, idx). (idx, b)) slots) @ all_calls slots bs)"
    by (rule Cons.IH [OF keys])
  also have "\<dots> = (Inr (map (\<lambda>(k, v). (k, v @ map (\<lambda>(b, idx). (b, read_value w addr idx b))
                                       (samples slots (b # bs) k))) out),
        cs @ all_calls slots (b # bs))"
    by (auto simp: samples_Cons all_calls_Cons comp_def split: prod.splits)
  finally show ?case .
qed

lemma scan_timeline_closed:
  assumes "start_time g = Some t0" and "blocks start_block end_block stride = Inr bs"
  shows "scan_timeline g w addr slots start_block end_block stride
     = (Inr (map (\<lambda>(k, v). (k, map (\<lambda>(b, idx). (b, read_value w addr idx b))
                                   (samples slots bs k))) (init_out slots)),
        all_calls slots bs)"
proof -
  have keys: "fst ` set slots \<subseteq> fst ` set (init_out slots)"
    by (simp add: init_out_keys)
  have "map (\<lambda>(k, v). (k, v @ map (\<lambda>(b, idx). (b, read_value w addr idx b))
                                   (samples slots bs k))) (init_out slots)
      = map (\<lambda>(k, v). (k, map (\<lambda>(b, idx). (b, read_value w addr idx b))
                                   (samples slots bs k))) (init_out slots)"
    by (rule map_cong) (auto dest: init_out_values)
  then show ?thesis
    unfolding scan_timeline_def Let_def assms(2)
    by (simp add: scan_blocks_closed [OF assms(1) keys])
qed

lemma map_of_keyed: "k \<in> fst ` set d \<Longrightarrow> map_of (map (\<lambda>(k, v). (k, f k)) d) k = Some (f k)"
  by (induction d) auto

lemma keyed_keys: "map fst (map (\<lambda>(k, v). (k, f k)) d) = map fst d"
  by (induction d) auto

lemma length_samples:
  "length (samples slots bs lbl) = length (filter (\<lambda>(l, idx). l = lbl) slots) * length bs"
  by (induction bs) (simp_all add: samples_def)

lemma two_matches:
  assumes "i < j" and "j < length xs" and "P (xs ! i)" and "P (xs ! j)"
  shows "2 \<le> length (filter P xs)"
proof -
  have split: "xs = take j xs @ xs ! j # drop (Suc j) xs"
    using assms(2) by (rule id_take_nth_drop)
  have "i < length (take j xs)" using assms(1,2) by simp
  then have "take j xs ! i \<in> set (take j xs)" by (rule nth_mem)
  then have "xs ! i \<in> set (take j xs)" using assms(1) by simp
  then have "filter P (take j xs) \<noteq> []"
    using assms(3) by (auto simp: filter_empty_conv)
  then have "1 \<le> length (filter P (take j xs))"
    by (cases "filter P (take j xs)") simp_all
  moreover have "length (filter P xs)
      = length (filter P (take j xs)) + length (filter P (xs ! j # drop (Suc j) xs))"
    by (subst split) simp
  ultimately show ?thesis using assms(4) by simp
qed

lemma scan_blocks_unbound:
  "start_time g = None \<Longrightarrow>
   scan_blocks g w addr slots tot i (b # bs) out cs = (Inl (NameError ''start_time''), cs)"
  by (simp add: progress_def)

lemma scan_timeline_unbound_start_time:
  assumes "start_block \<le> end_block" and "0 < stride" and unbound: "start_time g = None"
  shows "scan_timeline g w addr slots start_block end_block stride
     = (Inl (NameError ''start_time''), [])"
proof -
  define n where "n = nat ((end_block - start_block) div stride)"
  have "map (\<lambda>k. start_block + int k * stride) [0..<Suc n]
      = start_block # map (\<lambda>k. start_block + int k * stride) [Suc 0..<Suc n]"
    by (simp add: upt_conv_Cons del: upt_Suc)
  then have "blocks start_block end_block stride
      = Inr (start_block # map (\<lambda>k. start_block + int k * stride) [Suc 0..<Suc n])"
    using blocks_closed_form [OF assms(1,2)] by (simp only: n_def)
  then show ?thesis
    unfolding scan_timeline_def Let_def
    by (simp only: sum.case scan_blocks_unbound [OF unbound])
qed

text \<open>
  Claim C1. The claim says that the scan of a valid input completes whatever the
  progress lines do. In app.py the progress lines read the global \<open>start_time\<close>, which
  the module never binds: the scan of blocks 1000 to 2000 with step 500 raises NameError
  at the first block, before any storage read, for every client, address and slot list.
\<close>

theorem scan_timeline_progress_raises:
  "scan_timeline module_globals w addr slots 1000 2000 500
     = (Inl (NameError ''start_time''), [])"
  by (rule scan_timeline_unbound_start_time) (simp_all add: module_globals_def)

section \<open>Failure isolation and duplicate labels\<close>

text \<open>
  What the two loops do for a caller that has bound \<open>start_time\<close>, so that the
  progress lines do not raise. Let the read of slot index \<open>idx0\<close> at block \<open>b0\<close>
  raise with message \<open>msg\<close> on client \<open>w'\<close>, and let \<open>w'\<close> answer every other
  read as client \<open>w\<close> does. Then both scans complete with the same labels and the same
  reads; the entries of the failed pair are \<open>(b0, ERROR:msg)\<close> and every other entry
  is what the scan over \<open>w\<close> records.
\<close>

lemma scan_isolates_read_failure:
  assumes "start_time g = Some t0"
    and "blocks start_block end_block stride = Inr bs"
    and "storage_at w' addr idx0 b0 = Raised msg"
    and "\<forall>idx b. (idx, b) \<noteq> (idx0, b0) \<longrightarrow> storage_at w' addr idx b = storage_at w addr idx b"
    and "hex_prefix w' = hex_prefix w"
  shows "\<exists>timeline timeline' cs.
       scan_timeline g w addr slots start_block end_block stride = (Inr timeline, cs)
     \<and> scan_timeline g w' addr slots start_block end_block stride = (Inr timeline', cs)
     \<and> map fst timeline' = map fst timeline
     \<and> (\<forall>lbl \<in> fst ` set slots.
           map_of timeline lbl
             = Some (map (\<lambda>(b, idx). (b, read_value w addr idx b)) (samples slots bs lbl))
         \<and> map_of timeline' lbl
             = Some (map (\<lambda>(b, idx). if (idx, b) = (idx0, b0) then (b0, ''ERROR:'' @ msg)
                                       else (b, read_value w addr idx b))
                       (samples slots bs lbl)))"
proof -
  let ?series = "\<lambda>w k. map (\<lambda>(b, idx). (b, read_value w addr idx b)) (samples slots bs k)"
  let ?timeline = "\<lambda>w. map (\<lambda>(k, v). (k, ?series w k)) (init_out slots)"
  have rv: "read_value w' addr idx b
      = (if (idx, b) = (idx0, b0) then ''ERROR:'' @ msg else read_value w addr idx b)" for idx b
    using assms(3,4,5)
    by (auto simp: read_value_def get_storage_at_def split: read_result.splits)
  have series': "?series w' k
      = map (\<lambda>(b, idx). if (idx, b) = (idx0, b0) then (b0, ''ERROR:'' @ msg)
                           else (b, read_value w addr idx b)) (samples slots bs k)" for k
    by (rule map_cong) (auto simp: rv)
  have s1: "scan_timeline g w addr slots start_block end_block stride
              = (Inr (?timeline w), all_calls slots bs)"
    by (rule scan_timeline_closed [OF assms(1,2)])
  have s2: "scan_timeline g w' addr slots start_block end_block stride
              = (Inr (?timeline w'), all_calls slots bs)"
    by (rule scan_timeline_closed [OF assms(1,2)])
  have keys: "map fst (?timeline w') = map fst (?timeline w)"
    by (simp only: keyed_keys)
  have look: "\<forall>lbl \<in> fst ` set slots.
           map_of (?timeline w) lbl = Some (?series w lbl)
         \<and> map_of (?timeline w') lbl
             = Some (map (\<lambda>(b, idx). if (idx, b) = (idx0, b0) then (b0, ''ERROR:'' @ msg)
                                       else (b, read_value w addr idx b))
                       (samples slots bs lbl))"
  proof
    fix lbl assume "lbl \<in> fst ` set slots"
    then have k: "lbl \<in> fst ` set (init_out slots)" by (simp only: init_out_keys)
    have "map_of (?timeline w) lbl = Some (?series w lbl)"
      by (rule map_of_keyed [OF k])
    moreover have "map_of (?timeline w') lbl = Some (?series w' lbl)"
      by (rule map_of_keyed [OF k])
    ultimately show "map_of (?timeline w) lbl = Some (?series w lbl)
         \<and> map_of (?timeline w') lbl
             = Some (map (\<lambda>(b, idx). if (idx, b) = (idx0, b0) then (b0, ''ERROR:'' @ msg)
                                       else (b, read_value w addr idx b))
                       (samples slots bs lbl))"
      by (simp only: series' simp_thms)
  qed
  show ?thesis
    using s1 s2 keys look by blast
qed

text \<open>
  Under the same condition on \<open>start_time\<close>: when two entries of the slot list carry
  the same label, the returned dict has one series under that label, holding block by
  block the reads of every slot with that label in the order of the slot list.
\<close>

lemma scan_merges_duplicate_labels:
  assumes "start_time g = Some t0"
    and "blocks start_block end_block stride = Inr bs"
    and "i < j" and "j < length slots"
    and "fst (slots ! i) = lbl" and "fst (slots ! j) = lbl"
  shows "\<exists>timeline cs series.
       scan_timeline g w addr slots start_block end_block stride = (Inr timeline, cs)
     \<and> distinct (map fst timeline)
     \<and> map_of timeline lbl = Some series
     \<and> series = map (\<lambda>(b, idx). (b, read_value w addr idx b)) (samples slots bs lbl)
     \<and> length series = length (filter (\<lambda>(l, idx). l = lbl) slots) * length bs
     \<and> 2 * length bs \<le> length series"
proof -
  let ?series = "\<lambda>k. map (\<lambda>(b, idx). (b, read_value w addr idx b)) (samples slots bs k)"
  let ?timeline = "map (\<lambda>(k, v). (k, ?series k)) (init_out slots)"
  have run: "scan_timeline g w addr slots start_block end_block stride
              = (Inr ?timeline, all_calls slots bs)"
    by (rule scan_timeline_closed [OF assms(1,2)])
  have dist: "distinct (map fst ?timeline)"
    by (simp only: keyed_keys init_out_distinct)
  have "slots ! j \<in> set slots" using assms(4) by (rule nth_mem)
  then have "lbl \<in> fst ` set slots" using assms(6) by force
  then have k: "lbl \<in> fst ` set (init_out slots)" by (simp only: init_out_keys)
  have look: "map_of ?timeline lbl = Some (?series lbl)"
    by (rule map_of_keyed [OF k])
  have len: "length (?series lbl) = length (filter (\<lambda>(l, idx). l = lbl) slots) * length bs"
    by (simp add: length_samples)
  have "2 \<le> length (filter (\<lambda>(l, idx). l = lbl) slots)"
    by (rule two_matches [OF assms(3,4)]) (use assms(5,6) in \<open>simp_all add: case_prod_beta\<close>)
  then have "2 * length bs \<le> length (filter (\<lambda>(l, idx). l = lbl) slots) * length bs"
    by (rule mult_le_mono1)
  then have two: "2 * length bs \<le> length (?series lbl)" using len by simp
  show ?thesis using run dist look len two by blast
qed

text \<open>
  Claim C6. The claim says that a read that raises is recorded as an error observation
  and that the scan goes on. With the globals app.py binds, the scan of blocks 1000 to
  2000 with step 500, over a client whose read of slot 0 at block 1500 raises
  \<open>timeout\<close>, ends in the NameError of the progress lines at the first block: no read
  is issued and no observation, of the failure or of any other pair, is recorded.
\<close>

theorem scan_timeline_failed_read_not_recorded:
  "scan_timeline module_globals
     \<lparr>storage_at = (\<lambda>a i b. if i = 0 \<and> b = 1500 then Raised ''timeout'' else Returned [0x01]),
      hex_prefix = True, is_connected = True\<rparr>
     ''0xC0'' [(''s'', 0)] 1000 2000 500
   = (Inl (NameError ''start_time''), [])"
  by (rule scan_timeline_unbound_start_time) (simp_all add: module_globals_def)

text \<open>
  Claim C10. The claim says that the scan returns one series under a label that two
  slots share. With the globals app.py binds, the scan of blocks 1000 to 1500 with step
  500 over the slots \<open>(a, 1)\<close> and \<open>(a, 2)\<close> returns no timeline: it ends in the
  NameError of the progress lines at the first block, before any read.
\<close>

theorem scan_timeline_duplicate_labels_raises:
  "scan_timeline module_globals
     \<lparr>storage_at = (\<lambda>a i b. if i = 1 then Returned [0x0A] else Returned [0x0B]),
      hex_prefix = True, is_connected = True\<rparr>
     ''0xC0'' [(''a'', 1), (''a'', 2)] 1000 1500 500
   = (Inl (NameError ''start_time''), [])"
  by (rule scan_timeline_unbound_start_time) (simp_all add: module_globals_def)

section \<open>The change report and the exit status of main\<close>

lemma summarize_changes_length_pos: "series \<noteq> [] \<Longrightarrow> 1 \<le> length (summarize_changes series)"
proof -
  assume "series \<noteq> []"
  then obtain block val rest where s: "series = (block, val) # rest"
    by (cases series) auto
  have "summarize_changes series = (block, val) # summarize_loop [] (Some val) rest"
    unfolding summarize_changes_def s summarize_loop_Cons by simp
  then show ?thesis by simp
qed

lemma update_fresh: "k \<notin> fst ` set d \<Longrightarrow> AList.update k v d = d @ [(k, v)]"
  by (induction d) auto

lemma report_loop_closed:
  "distinct (map fst timeline) \<Longrightarrow> fst ` set timeline \<inter> fst ` set cr = {} \<Longrightarrow>
   report_loop timeline cr n
     = (cr @ map (\<lambda>(lbl, series). (lbl, summarize_changes series)) timeline,
        n + (\<Sum>(lbl, series) \<leftarrow> timeline. max 0 (int (length (summarize_changes series)) - 1)))"
proof (induction timeline arbitrary: cr n)
  case Nil
  show ?case by simp
next
  case (Cons entry timeline)
  obtain lbl series where entry: "entry = (lbl, series)" by (cases entry)
  let ?changes = "summarize_changes series"
  have fresh: "lbl \<notin> fst ` set cr" using Cons.prems(2) by (auto simp: entry)
  have upd: "AList.update lbl ?changes cr = cr @ [(lbl, ?changes)]"
    by (rule update_fresh [OF fresh])
  have d: "distinct (map fst timeline)" using Cons.prems(1) by simp
  have "lbl \<notin> fst ` set timeline" using Cons.prems(1) by (simp add: entry)
  then have disj: "fst ` set timeline \<inter> fst ` set (cr @ [(lbl, ?changes)]) = {}"
    using Cons.prems(2) by (auto simp: entry)
  have "report_loop (entry # timeline) cr n
      = report_loop timeline (cr @ [(lbl, ?changes)]) (n + max 0 (int (length ?changes) - 1))"
    by (simp add: entry upd Let_def)
  also have "\<dots> = ((cr @ [(lbl, ?changes)])
                      @ map (\<lambda>(lbl, series). (lbl, summarize_changes series)) timeline,
        (n + max 0 (int (length ?changes) - 1))
          + (\<Sum>(lbl, series) \<leftarrow> timeline. max 0 (int (length (summarize_changes series)) - 1)))"
    by (rule Cons.IH [OF d disj])
  finally show ?case by (simp add: entry)
qed

lemma assemble_closed:
  assumes "distinct (map fst timeline)"
  shows "assemble timeline
     = \<lparr>change_report = map (\<lambda>(lbl, series). (lbl, summarize_changes series)) timeline,
        total_changes
          = (\<Sum>(lbl, series) \<leftarrow> timeline. max 0 (int (length (summarize_changes series)) - 1)),
        ok = ((\<Sum>(lbl, series) \<leftarrow> timeline.
                 max 0 (int (length (summarize_changes series)) - 1)) = 0)\<rparr>"
  unfolding assemble_def using report_loop_closed [OF assms, of "[]" 0] by simp

text \<open>
  Claim C7. For a timeline with one series per label and every series non-empty (what
  a scan of a validated range returns), the report holds the summarized series of every
  label, \<open>total_changes\<close> is the sum over the labels of \<open>max(0, len(changes) - 1)\<close>, it
  is zero exactly when every label has a single change point, and \<open>ok\<close> is
  \<open>total_changes == 0\<close>.
\<close>

theorem change_report_totals:
  assumes "distinct (map fst timeline)"
    and "\<forall>(lbl, series) \<in> set timeline. series \<noteq> []"
  shows "change_report (assemble timeline)
           = map (\<lambda>(lbl, series). (lbl, summarize_changes series)) timeline
       \<and> total_changes (assemble timeline)
           = (\<Sum>(lbl, changes) \<leftarrow> change_report (assemble timeline).
                max 0 (int (length changes) - 1))
       \<and> (total_changes (assemble timeline) = 0
            \<longleftrightarrow> (\<forall>(lbl, changes) \<in> set (change_report (assemble timeline)).
                   length changes = 1))
       \<and> ok (assemble timeline) = (total_changes (assemble timeline) = 0)"
proof -
  let ?cr = "map (\<lambda>(lbl, series). (lbl, summarize_changes series)) timeline"
  let ?terms = "map (\<lambda>(lbl, changes). max 0 (int (length changes) - 1)) ?cr"
  have terms: "?terms
      = map (\<lambda>(lbl, series). max 0 (int (length (summarize_changes series)) - 1)) timeline"
    by (simp add: comp_def case_prod_beta)
  have cr: "change_report (assemble timeline) = ?cr"
    and tot: "total_changes (assemble timeline) = sum_list ?terms"
    and ok: "ok (assemble timeline) = (total_changes (assemble timeline) = 0)"
    unfolding terms by (simp_all add: assemble_closed [OF assms(1)])
  have pos: "\<forall>(lbl, changes) \<in> set ?cr. 1 \<le> length changes"
  proof (clarsimp simp del: One_nat_def)
    fix lbl series assume "(lbl, series) \<in> set timeline"
    then have "series \<noteq> []" using assms(2) by blast
    then show "1 \<le> length (summarize_changes series)"
      by (rule summarize_changes_length_pos)
  qed
  have "sum_list ?terms = 0 \<longleftrightarrow> (\<forall>x \<in> set ?terms. x = 0)"
    by (rule sum_list_nonneg_eq_0_iff) auto
  also have "\<dots> \<longleftrightarrow> (\<forall>(lbl, changes) \<in> set ?cr. max 0 (int (length changes) - 1) = 0)"
    by (simp add: case_prod_beta)
  also have "\<dots> \<longleftrightarrow> (\<forall>(lbl, changes) \<in> set ?cr. length changes = 1)"
    using pos by (intro ball_cong refl) (auto simp: max_def)
  finally have iff: "total_changes (assemble timeline) = 0
      \<longleftrightarrow> (\<forall>(lbl, changes) \<in> set ?cr. length changes = 1)"
    by (simp only: tot)
  show ?thesis
    using tot iff ok unfolding cr by (simp only: simp_thms)
qed

theorem change_report_totals_witness:
  "change_report (assemble [(''a'', [(1000, ''0x01''), (1500, ''0x01''), (2000, ''0x02'')]),
                            (''b'', [(1000, ''0x05''), (1500, ''0x05''), (2000, ''0x05'')])])
     = [(''a'', [(1000, ''0x01''), (2000, ''0x02'')]), (''b'', [(1000, ''0x05'')])]
   \<and> total_changes (assemble [(''a'', [(1000, ''0x01''), (1500, ''0x01''), (2000, ''0x02'')]),
                            (''b'', [(1000, ''0x05''), (1500, ''0x05''), (2000, ''0x05'')])]) = 1
   \<and> ok (assemble [(''a'', [(1000, ''0x01''), (1500, ''0x01''), (2000, ''0x02'')]),
                   (''b'', [(1000, ''0x05''), (1500, ''0x05''), (2000, ''0x05'')])]) = False"
proof -
  let ?t = "[(''a'', [(1000::int, ''0x01''), (1500, ''0x01''), (2000, ''0x02'')]),
             (''b'', [(1000, ''0x05''), (1500, ''0x05''), (2000, ''0x05'')])]"
  have h1: "distinct (map fst ?t)" by simp
  have h2: "\<forall>(lbl, series) \<in> set ?t. series \<noteq> []" by simp
  have cr: "map (\<lambda>(lbl, series). (lbl, summarize_changes series)) ?t
      = [(''a'', [(1000, ''0x01''), (2000, ''0x02'')]), (''b'', [(1000, ''0x05'')])]"
    by (simp add: summarize_changes_def)
  show ?thesis
    using change_report_totals [OF h1 h2] unfolding cr by simp
qed

text \<open>
  Every timeline that a scan of a validated range returns has distinct labels and no
  empty series: the two conditions under which the report's totals are stated.
\<close>

lemma scan_timeline_series_nonempty:
  assumes "start_block \<le> end_block" and "0 < stride"
    and run: "scan_timeline g w addr slots start_block end_block stride = (Inr timeline, cs)"
  shows "distinct (map fst timeline) \<and> (\<forall>(lbl, series) \<in> set timeline. series \<noteq> [])"
proof -
  define bs where "bs = map (\<lambda>k. start_block + int k * stride)
                          [0..<Suc (nat ((end_block - start_block) div stride))]"
  have bl: "blocks start_block end_block stride = Inr bs"
    unfolding bs_def by (rule blocks_closed_form [OF assms(1,2)])
  have bs_pos: "1 \<le> length bs" by (simp add: bs_def)
  obtain t0 where bound: "start_time g = Some t0"
    using scan_timeline_unbound_start_time [OF assms(1,2), of g w addr slots] run
    by (cases "start_time g") auto
  let ?series = "\<lambda>k. map (\<lambda>(b, idx). (b, read_value w addr idx b)) (samples slots bs k)"
  have tl: "timeline = map (\<lambda>(k, v). (k, ?series k)) (init_out slots)"
    using scan_timeline_closed [OF bound bl, of w addr slots] run by simp
  have dist: "distinct (map fst timeline)"
    unfolding tl by (simp only: keyed_keys init_out_distinct)
  have ne: "\<forall>(lbl, series) \<in> set timeline. series \<noteq> []"
  proof (clarify)
    fix lbl assume mem: "(lbl, []) \<in> set timeline"
    then have "lbl \<in> fst ` set timeline" by force
    then have "lbl \<in> fst ` set slots"
      unfolding tl using keyed_keys [of ?series "init_out slots"] init_out_keys [of slots]
      by (metis set_map)
    then have "filter (\<lambda>(l, idx). l = lbl) slots \<noteq> []"
      by (auto simp: filter_empty_conv)
    then have "1 \<le> length (filter (\<lambda>(l, idx). l = lbl) slots)"
      by (cases "filter (\<lambda>(l, idx). l = lbl) slots") simp_all
    then have "1 * 1 \<le> length (filter (\<lambda>(l, idx). l = lbl) slots) * length bs"
      using bs_pos by (rule mult_le_mono)
    then have "?series lbl \<noteq> []"
      using length_samples [of slots bs lbl] by auto
    moreover have "?series lbl = []"
      using mem unfolding tl by auto
    ultimately show False by simp
  qed
  show ?thesis using dist ne by simp
qed

text \<open>
  Claim C8. When \<open>to_block < from_block\<close> or \<open>step \<le> 0\<close>, \<open>main\<close> exits with
  status 1 at its first checks, and no storage read has been issued.
\<close>

theorem main_rejects_bad_range:
  assumes "to_block a < from_block a \<or> step a \<le> 0"
  shows "main a e = (Exit 1, []) \<and> exit_status (fst (main a e)) \<noteq> 0
       \<and> snd (main a e) = []"
  using assms by (auto simp: main_def)

theorem main_rejects_bad_range_witness:
  "step \<lparr>from_block = 1000, to_block = 2000, step = 0, rpc = ''http://localhost:8545'',
         address = ''0xC0''\<rparr> \<le> 0
   \<and> main \<lparr>from_block = 1000, to_block = 2000, step = 0, rpc = ''http://localhost:8545'',
           address = ''0xC0''\<rparr>
        \<lparr>is_address = (\<lambda>s. True), to_checksum_address = (\<lambda>s. s),
         parse_slots = Inr [(''a'', 0)],
         client = \<lparr>storage_at = (\<lambda>a i b. Returned [0x01]), hex_prefix = True,
                   is_connected = True\<rparr>,
         module = module_globals\<rparr>
      = (Exit 1, [])"
proof -
  let ?a = "\<lparr>from_block = 1000, to_block = 2000, step = 0, rpc = ''http://localhost:8545'',
         address = ''0xC0''\<rparr>"
  have h: "to_block ?a < from_block ?a \<or> step ?a \<le> 0" by simp
  show ?thesis using main_rejects_bad_range [OF h] by simp
qed

text \<open>
  With the globals app.py itself binds, a run that passes every check of \<open>main\<close>
  ends in the uncaught NameError of the progress lines, before any storage read.
\<close>

lemma main_valid_input_raises:
  assumes "from_block a \<le> to_block a" and "0 < step a"
    and "is_address e (address a)" and "parse_slots e = Inr slots"
    and "prefix ''http://'' (rpc a) \<or> prefix ''https://'' (rpc a)"
    and "is_connected (client e)" and "module e = module_globals"
  shows "main a e = (Uncaught (NameError ''start_time''), [])"
proof -
  have "scan_timeline (module e) (client e) (to_checksum_address e (address a)) slots
          (from_block a) (to_block a) (step a) = (Inl (NameError ''start_time''), [])"
    by (rule scan_timeline_unbound_start_time [OF assms(1,2)])
       (simp add: assms(7) module_globals_def)
  then show ?thesis
    using assms(1-6) by (simp add: main_def to_checksum_def)
qed

end
